theory Spec2Isabelle
  imports Main "HOL-Library.Sublist"
begin

unbundle bit_operations_syntax

section \<open>AX.25 framing (STACet/ax25.py): the embedding\<close>

text \<open>
  The module is Python 3 (\<^verbatim>\<open>bytes([char << 1])\<close>, \<^verbatim>\<open>b"%b%s%b"\<close>, iteration over
  a bytes object yielding integers).  A \<^verbatim>\<open>bytes\<close> object and a \<^verbatim>\<open>str\<close> of code points
  below 256 are both modelled as \<^typ>\<open>string\<close> (a list of 8-bit characters), a
  \<^verbatim>\<open>bitarray\<close> and every other iterable of bits as \<^typ>\<open>bool list\<close>, Python integers
  as \<^typ>\<open>int\<close>, and counters and indices that never go negative as \<^typ>\<open>nat\<close>.
  Every exception the code can raise is a value of \<open>error\<close>; a function that can
  raise returns \<open>error + 'a\<close>.
\<close>

datatype error =
    AssertionError
  | ValueError
  | TypeError
  | IndexError
  | NameError
  | AttributeError
  | ChecksumInvalid \<comment> \<open>\<^verbatim>\<open>Exception("FCS checksum invalid.")\<close>\<close>

subsection \<open>The bit container\<close>

text \<open>
  \<^verbatim>\<open>bitarray(endian="little").frombytes\<close>: each byte contributes its eight bits, least
  significant bit first.
\<close>

definition byte_bits :: "char \<Rightarrow> bool list" where
  "byte_bits c = map (bit (of_char c :: nat)) [0..<8]"

definition frombytes :: "string \<Rightarrow> bool list" where
  "frombytes bs = concat (map byte_bits bs)"

text \<open>
  \<^verbatim>\<open>tobytes\<close>: the bits are cut into groups of eight, the last group padded with zero
  bits.  In a little-endian array the first bit of a group is the least significant, in
  a big-endian array (the default of \<^verbatim>\<open>bitarray()\<close>) the most significant.
\<close>

fun bits_value_little :: "bool list \<Rightarrow> nat" where
  "bits_value_little [] = 0"
| "bits_value_little (b # bs) = of_bool b + 2 * bits_value_little bs"

fun tobytes :: "bool list \<Rightarrow> string" where
  "tobytes [] = []"
| "tobytes (b # bs) = char_of (bits_value_little (take 8 (b # bs))) # tobytes (drop 7 bs)"

definition bits_value_big :: "bool list \<Rightarrow> nat" where
  "bits_value_big bs = foldl (\<lambda>n b. 2 * n + of_bool b) 0 bs"

fun tobytes_big :: "bool list \<Rightarrow> string" where
  "tobytes_big [] = []"
| "tobytes_big (b # bs) =
     char_of (bits_value_big (take 8 (b # bs @ replicate 7 False))) # tobytes_big (drop 7 bs)"

text \<open>Python's \<^verbatim>\<open>xs[i:j]\<close> for indices \<open>0 \<le> i\<close>, \<open>0 \<le> j\<close>; it never raises.\<close>

definition slice :: "'a list \<Rightarrow> nat \<Rightarrow> nat \<Rightarrow> 'a list" where
  "slice xs i j = take (j - i) (drop i xs)"

text \<open>
  \<^verbatim>\<open>bits.search(pat)\<close>: the list of all start positions of \<open>pat\<close>, in increasing order,
  overlapping occurrences included (the bitarray releases the module was written for
  return a list, which \<^verbatim>\<open>parse\<close> indexes).
\<close>

definition search :: "bool list \<Rightarrow> bool list \<Rightarrow> nat list" where
  "search xs pat =
     filter (\<lambda>p. take (length pat) (drop p xs) = pat) [0..<Suc (length xs) - length pat]"

text \<open>The same positions, found in one pass over the suffixes of the sequence.\<close>

fun search_from :: "nat \<Rightarrow> bool list \<Rightarrow> bool list \<Rightarrow> nat list" where
  "search_from p [] pat = (if pat = [] then [p] else [])"
| "search_from p (x # xs) pat =
     (if take (length pat) (x # xs) = pat then p # search_from (Suc p) xs pat
      else search_from (Suc p) xs pat)"

subsection \<open>Bit stuffing (lines 52--85)\<close>

text \<open>
  \<^verbatim>\<open>bit_stuff\<close> is a generator; the model is the list of what it yields.  The first
  argument of the loop is the local \<^verbatim>\<open>count\<close>.
\<close>

fun stuff_loop :: "nat \<Rightarrow> bool list \<Rightarrow> bool list" where
  "stuff_loop count [] = []"
| "stuff_loop count (b # data) =
     (let count1 = (if b then count + 1 else 0)
      in if count1 = 5 then b # False # stuff_loop 0 data
         else b # stuff_loop count1 data)"

definition bit_stuff :: "bool list \<Rightarrow> bool list" where
  "bit_stuff data = stuff_loop 0 data"

text \<open>The value of \<^verbatim>\<open>count\<close> when the loop of \<^verbatim>\<open>bit_stuff\<close> has consumed \<open>data\<close>.\<close>

fun count_after :: "nat \<Rightarrow> bool list \<Rightarrow> nat" where
  "count_after count [] = count"
| "count_after count (b # data) =
     (let count1 = (if b then count + 1 else 0)
      in if count1 = 5 then count_after 0 data else count_after count1 data)"

text \<open>
  \<^verbatim>\<open>bit_unstuff\<close>: the loop carries \<^verbatim>\<open>count\<close> and \<^verbatim>\<open>skip\<close>; the result is what was
  appended to \<^verbatim>\<open>ret_bits\<close>.
\<close>

fun unstuff_loop :: "nat \<Rightarrow> bool \<Rightarrow> bool list \<Rightarrow> bool list" where
  "unstuff_loop count skip [] = []"
| "unstuff_loop count skip (b # data) =
     (if \<not> skip then
        (let count1 = (if b then count + 1 else 0)
         in if count1 = 5 then b # unstuff_loop 0 True data
            else b # unstuff_loop count1 False data)
      else unstuff_loop count False data)"

definition bit_unstuff :: "bool list \<Rightarrow> bool list" where
  "bit_unstuff data = unstuff_loop 0 False data"

subsection \<open>The frame check sequence (lines 91--158)\<close>

text \<open>The state of an \<^verbatim>\<open>FCS\<close> object is its attribute \<^verbatim>\<open>fcs\<close>, a Python integer.\<close>

definition FCS_init :: int where
  "FCS_init = 0xffff"

definition FCS_update_bit :: "int \<Rightarrow> bool \<Rightarrow> int" where
  "FCS_update_bit fcs b =
     (let check = (fcs AND 1 = 1);
          fcs1 = drop_bit 1 fcs
      in if check \<noteq> b then fcs1 XOR 0x8408 else fcs1)"

text \<open>
  \<^verbatim>\<open>FCS.update(bytes)\<close> starts with \<^verbatim>\<open>(ord(b) for b in bytes)\<close>.  What it does depends
  on the Python value it is given: a bit (a bool or an int) is not iterable, so building
  the generator raises TypeError; the items of a bytes object are integers, on which
  \<^verbatim>\<open>ord\<close> raises TypeError; the characters of a str are processed most significant bit
  first.
\<close>

datatype update_arg = Arg_bit bool | Arg_bytes string | Arg_str string

definition update_byte :: "int \<Rightarrow> nat \<Rightarrow> int" where
  "update_byte fcs byte = foldl (\<lambda>s i. FCS_update_bit s (drop_bit i byte AND 1 = 1)) fcs (rev [0..<8])"

fun FCS_update :: "int \<Rightarrow> update_arg \<Rightarrow> error + int" where
  "FCS_update fcs (Arg_bit b) = Inl TypeError"
| "FCS_update fcs (Arg_bytes bs) = (if bs = [] then Inr fcs else Inl TypeError)"
| "FCS_update fcs (Arg_str s) = Inr (foldl (\<lambda>st c. update_byte st (of_char c)) fcs s)"

text \<open>\<^verbatim>\<open>struct.pack("<H", v)\<close> for \<open>0 \<le> v < 2 ^ 16\<close>: the low byte, then the high byte.\<close>

definition FCS_digest :: "int \<Rightarrow> string" where
  "FCS_digest fcs = (let v = (NOT fcs) mod 2 ^ 16 in [char_of (v mod 256), char_of (v div 256)])"

text \<open>The generator \<^verbatim>\<open>fcs(bits)\<close>: the bits, then the bits of the digest.\<close>

definition fcs :: "bool list \<Rightarrow> bool list" where
  "fcs bits = bits @ frombytes (FCS_digest (foldl FCS_update_bit FCS_init bits))"

text \<open>
  The generator \<^verbatim>\<open>fcs_validate(bits)\<close>, consumed to its end.  The loop carries the
  big-endian \<^verbatim>\<open>buffer\<close>, the FCS state and the bits yielded so far; an exception ends it.
\<close>

fun fcs_validate_loop ::
  "bool list \<Rightarrow> int \<Rightarrow> bool list \<Rightarrow> bool list \<Rightarrow> error + (bool list \<times> int \<times> bool list)" where
  "fcs_validate_loop buffer st out [] = Inr (buffer, st, out)"
| "fcs_validate_loop buffer st out (b # bits) =
     (let buffer1 = buffer @ [b]
      in if length buffer1 > 16 then
           (case FCS_update st (Arg_bit (hd buffer1)) of
              Inl e \<Rightarrow> Inl e
            | Inr st1 \<Rightarrow> fcs_validate_loop (tl buffer1) st1 (out @ [hd buffer1]) bits)
         else fcs_validate_loop buffer1 st out bits)"

definition fcs_validate :: "bool list \<Rightarrow> error + bool list" where
  "fcs_validate bits =
     (case fcs_validate_loop [] FCS_init [] bits of
        Inl e \<Rightarrow> Inl e
      | Inr (buffer, st, out) \<Rightarrow>
          if tobytes_big buffer \<noteq> FCS_digest st then Inl ChecksumInvalid else Inr out)"

subsection \<open>Callsigns (lines 180--203)\<close>

definition upper_char :: "char \<Rightarrow> char" where
  "upper_char c =
     (let n = of_char c :: nat in if 97 \<le> n \<and> n \<le> 122 then char_of (n - 32) else c)"

definition upper :: "string \<Rightarrow> string" where
  "upper s = map upper_char s"

text \<open>\<^verbatim>\<open>s.find(b"-")\<close>: the index of the first occurrence, or \<open>-1\<close>.\<close>

definition bytes_find :: "string \<Rightarrow> char \<Rightarrow> int" where
  "bytes_find s c = (if c \<in> set s then int (length (takeWhile (\<lambda>x. x \<noteq> c) s)) else - 1)"

text \<open>\<^verbatim>\<open>s.split(b"-")\<close>: the pieces between the separators, one more than there are separators.\<close>

fun bytes_split :: "string \<Rightarrow> char \<Rightarrow> string list" where
  "bytes_split [] sep = [[]]"
| "bytes_split (c # cs) sep =
     (if c = sep then [] # bytes_split cs sep
      else (case bytes_split cs sep of
              [] \<Rightarrow> [[c]]
            | p # ps \<Rightarrow> (c # p) # ps))"

text \<open>
  Lines 182--186: the callsign is upper-cased and split at its hyphen when \<^verbatim>\<open>find\<close>
  returns an index above zero.  Unpacking the result of \<^verbatim>\<open>split\<close> into two names raises
  ValueError unless there are exactly two pieces.
\<close>

definition callsign_split :: "string \<Rightarrow> error + (string \<times> string)" where
  "callsign_split callsign0 =
     (let callsign = upper callsign0
      in if bytes_find callsign CHR ''-'' > 0 then
           (case bytes_split callsign CHR ''-'' of
              [c, ssid] \<Rightarrow> Inr (c, ssid)
            | _ \<Rightarrow> Inl ValueError)
         else Inr (callsign, ''0''))"

text \<open>Lines 191--193: padding with spaces up to six characters.\<close>

definition callsign_pad :: "string \<Rightarrow> string" where
  "callsign_pad callsign = callsign @ replicate (6 - length callsign) CHR '' ''"

text \<open>
  Line 198: \<^verbatim>\<open>bytes([char << 1])\<close> for each character; \<^verbatim>\<open>bytes\<close> raises ValueError for a
  value above 255.
\<close>

fun shift_bytes :: "string \<Rightarrow> error + string" where
  "shift_bytes [] = Inr []"
| "shift_bytes (c # cs) =
     (if push_bit 1 (of_char c :: nat) < 256 then
        (case shift_bytes cs of
           Inl e \<Rightarrow> Inl e
         | Inr r \<Rightarrow> Inr (char_of (push_bit 1 (of_char c :: nat)) # r))
      else Inl ValueError)"

definition callsign_encode :: "string \<Rightarrow> error + string" where
  "callsign_encode callsign0 =
     (case callsign_split callsign0 of
        Inl e \<Rightarrow> Inl e
      | Inr (callsign, ssid) \<Rightarrow>
          if length ssid \<noteq> 1 then Inl AssertionError
          else if \<not> length callsign \<le> 6 then Inl AssertionError
          else shift_bytes (callsign_pad callsign @ ssid))"

definition callsign_decode :: "bool list \<Rightarrow> string" where
  "callsign_decode callbits = map (\<lambda>c. char_of (drop_bit 1 (of_char c :: nat))) (tobytes callbits)"

text \<open>
  Encoding \<open>C-S\<close> and decoding the bits of the result, as a receiver does after
  \<^verbatim>\<open>frombytes\<close> on a little-endian array.
\<close>

definition callsign_roundtrip :: "string \<Rightarrow> char \<Rightarrow> error + string" where
  "callsign_roundtrip C S =
     (case callsign_encode (C @ ''-'' @ [S]) of
        Inl e \<Rightarrow> Inl e
      | Inr enc \<Rightarrow> Inr (callsign_decode (frombytes enc)))"

subsection \<open>Frames (lines 164--352)\<close>

text \<open>
  The attributes of a frame object.  \<^verbatim>\<open>control_field\<close> and \<^verbatim>\<open>protocol_id\<close> exist only on
  a \<^verbatim>\<open>UI\<close> frame and \<^verbatim>\<open>digis\<close> only after \<^verbatim>\<open>parse\<close>; \<^verbatim>\<open>digis\<close> holds a tuple or a str.
\<close>

datatype digis_value = Digis_tuple "string list" | Digis_str string

record frame =
  flag :: string
  destination :: string
  source :: string
  digipeaters :: "string list"
  info :: string
  control_field :: "string option"
  protocol_id :: "string option"
  digis :: "digis_value option"

definition AX25 :: "string \<Rightarrow> string \<Rightarrow> string list \<Rightarrow> string \<Rightarrow> frame" where
  "AX25 dst src digi inf0 =
     \<lparr>flag = [CHR 0x7E], destination = dst, source = src, digipeaters = digi, info = inf0,
      control_field = None, protocol_id = None, digis = None\<rparr>"

definition UI :: "string \<Rightarrow> string \<Rightarrow> string list \<Rightarrow> string \<Rightarrow> frame" where
  "UI dst src digi inf0 =
     (AX25 dst src digi inf0)\<lparr>control_field := Some [CHR 0x03], protocol_id := Some [CHR 0xF0]\<rparr>"

text \<open>
  The frame \<^verbatim>\<open>UI(b"APRS", b"N0CALL", (b"WIDE1-1", b"WIDE2-1"), b"!")\<close>.
\<close>

definition example_frame :: frame where
  "example_frame = UI ''APRS'' ''N0CALL'' [''WIDE1-1'', ''WIDE2-1''] ''!''"

text \<open>
  Its header (the four encoded addresses, the last byte marked, control field and protocol
  id) and the bytes it sends between the flags: header, info and the two digest bytes.
\<close>

definition example_header :: string where
  "example_header =
     [CHR 0x82, CHR 0xA0, CHR 0xA4, CHR 0xA6, CHR 0x40, CHR 0x40, CHR 0x60,
      CHR 0x9C, CHR 0x60, CHR 0x86, CHR 0x82, CHR 0x98, CHR 0x98, CHR 0x60,
      CHR 0xAE, CHR 0x92, CHR 0x88, CHR 0x8A, CHR 0x62, CHR 0x40, CHR 0x62,
      CHR 0xAE, CHR 0x92, CHR 0x88, CHR 0x8A, CHR 0x64, CHR 0x40, CHR 0x63,
      CHR 0x03, CHR 0xF0]"

definition example_body :: string where
  "example_body = example_header @ [CHR 0x21, CHR 0x52, CHR 0xE4]"

fun encode_digis :: "string list \<Rightarrow> error + string" where
  "encode_digis [] = Inr []"
| "encode_digis (digi # rest) =
     (case callsign_encode digi of
        Inl e \<Rightarrow> Inl e
      | Inr x \<Rightarrow> (case encode_digis rest of Inl e \<Rightarrow> Inl e | Inr y \<Rightarrow> Inr (x @ y)))"

definition encoded_addresses :: "frame \<Rightarrow> error + string" where
  "encoded_addresses self =
     (case callsign_encode (destination self) of
        Inl e \<Rightarrow> Inl e
      | Inr d \<Rightarrow>
     (case callsign_encode (source self) of
        Inl e \<Rightarrow> Inl e
      | Inr s \<Rightarrow>
     (case encode_digis (digipeaters self) of
        Inl e \<Rightarrow> Inl e
      | Inr g \<Rightarrow>
          (let address_bytes = d @ s @ g
           in if address_bytes = [] then Inl IndexError
              else Inr (butlast address_bytes @
                        [char_of ((of_char (last address_bytes) :: nat) OR 1)])))))"

definition header :: "frame \<Rightarrow> error + string" where
  "header self =
     (case encoded_addresses self of
        Inl e \<Rightarrow> Inl e
      | Inr a \<Rightarrow>
     (case control_field self of
        None \<Rightarrow> Inl AttributeError
      | Some c \<Rightarrow>
     (case protocol_id self of
        None \<Rightarrow> Inl AttributeError
      | Some p \<Rightarrow> Inr (a @ c @ p))))"

text \<open>The method \<^verbatim>\<open>AX25.fcs\<close> (lines 321--330).\<close>

definition AX25_fcs :: "frame \<Rightarrow> error + string" where
  "AX25_fcs self =
     (case header self of
        Inl e \<Rightarrow> Inl e
      | Inr h \<Rightarrow> Inr (FCS_digest (foldl FCS_update_bit FCS_init (frombytes (h @ info self)))))"

definition unparse :: "frame \<Rightarrow> error + bool list" where
  "unparse self =
     (case header self of
        Inl e \<Rightarrow> Inl e
      | Inr h \<Rightarrow>
     (case AX25_fcs self of
        Inl e \<Rightarrow> Inl e
      | Inr f \<Rightarrow>
          Inr (frombytes (flag self) @ bit_stuff (frombytes (h @ info self @ f))
               @ frombytes (flag self))))"

text \<open>
  The loop of lines 263--265 over \<^verbatim>\<open>range(14, len(bits_bytes) - 1)\<close>.  The last argument
  is the loop variable \<^verbatim>\<open>n\<close>, unbound (\<open>None\<close>) until the body has run once.  The
  comparison of the two bytes at \<open>n\<close> with the marker is the parameter \<open>eq\<close>.
\<close>

fun scan_marker :: "(string \<Rightarrow> bool) \<Rightarrow> string \<Rightarrow> nat list \<Rightarrow> nat option \<Rightarrow> nat option" where
  "scan_marker eq bits_bytes [] n = n"
| "scan_marker eq bits_bytes (m # ms) n =
     (if eq (slice bits_bytes m (m + 2)) then Some m else scan_marker eq bits_bytes ms (Some m))"

text \<open>
  Line 264 compares a bytes object with the str \<^verbatim>\<open>"\x03\xF0"\<close>.  In Python 3 a bytes
  object and a str are never equal, whatever they hold.
\<close>

definition bytes_eq_str :: "string \<Rightarrow> string \<Rightarrow> bool" where
  "bytes_eq_str b s = False"

definition no_decode :: string where
  "no_decode = ''no decode''"

text \<open>
  The body of the \<^verbatim>\<open>try\<close> block of \<^verbatim>\<open>parse\<close> (lines 249--302): an exception, or the four
  values it assigns to \<^verbatim>\<open>destination\<close>, \<^verbatim>\<open>source\<close>, \<^verbatim>\<open>info\<close> and \<^verbatim>\<open>digis\<close>.
  \<^item> \<^verbatim>\<open>flag_loc[0]\<close>, \<^verbatim>\<open>flag_loc[1]\<close> raise IndexError when the list is too short;
  \<^item> \<^verbatim>\<open>n\<close> is unbound after a loop over an empty range (NameError at line 266);
  \<^item> \<^verbatim>\<open>digilen\<close> is \<^verbatim>\<open>(n - 14) * 8 / 7\<close>, zero exactly when \<open>(n - 14) * 8\<close> is;
  \<^item> when \<^verbatim>\<open>digilen\<close> is not zero, line 291 assigns to \<^verbatim>\<open>digipeters\<close>, and line 296
    reads the unbound \<^verbatim>\<open>digipeaters\<close> (NameError).
\<close>

definition parse_body ::
  "(string \<Rightarrow> bool) \<Rightarrow> frame \<Rightarrow> bool list \<Rightarrow> error + (string \<times> string \<times> string \<times> digis_value)" where
  "parse_body marker_eq self bits =
     (let flag_bits = frombytes (flag self);
          flag_loc = search bits flag_bits
      in if length flag_loc < 2 then Inl IndexError
         else
           (let bits_noflag = slice bits (flag_loc ! 0 + 8) (flag_loc ! 1);
                bits_unstuff = bit_unstuff bits_noflag;
                bits_bytes = tobytes bits_unstuff;
                h_dest = slice bits_unstuff 0 56;
                h_src = slice bits_unstuff 56 112
            in case scan_marker marker_eq bits_bytes [14..<length bits_bytes - 1] None of
                 None \<Rightarrow> Inl NameError
               | Some n \<Rightarrow>
                   if int n = int (length bits_bytes) - 1
                   then Inr (no_decode, no_decode, no_decode, Digis_str no_decode)
                   else
                     (let h_digi = slice bits_unstuff 112 (112 + (n - 14) * 8);
                          h_len = 112 + (n - 14) * 8 + 16;
                          inf0 = slice bits_unstuff h_len (length bits_unstuff - 16);
                          dst = callsign_decode h_dest;
                          src = callsign_decode h_src
                      in if (n - 14) * 8 = 0
                         then Inr (dst, src, tobytes inf0, Digis_tuple [])
                         else Inl NameError)))"

text \<open>
  \<^verbatim>\<open>parse\<close>: the bare \<^verbatim>\<open>except\<close> clause (lines 303--308) turns every exception of the
  body into the four sentinel assignments.
\<close>

definition set_no_decode :: "frame \<Rightarrow> frame" where
  "set_no_decode self =
     self\<lparr>destination := no_decode, source := no_decode, info := no_decode,
          digis := Some (Digis_str no_decode)\<rparr>"

definition parse_with :: "(string \<Rightarrow> bool) \<Rightarrow> frame \<Rightarrow> bool list \<Rightarrow> frame" where
  "parse_with marker_eq self bits =
     (case parse_body marker_eq self bits of
        Inl e \<Rightarrow> set_no_decode self
      | Inr (dst, src, inf0, dg) \<Rightarrow>
          self\<lparr>destination := dst, source := src, info := inf0, digis := Some dg\<rparr>)"

definition parse :: "frame \<Rightarrow> bool list \<Rightarrow> frame" where
  "parse self bits = parse_with (\<lambda>b. bytes_eq_str b [CHR 0x03, CHR 0xF0]) self bits"

section \<open>Bit stuffing\<close>

lemma unstuff_stuff_loop: "c < 5 \<Longrightarrow> unstuff_loop c False (stuff_loop c bs) = bs"
  by (induction bs arbitrary: c) (auto simp: Let_def)

text \<open>
  Claim C3.  For every finite bit sequence \<open>B\<close>, unstuffing the stuffed sequence gives
  \<open>B\<close> back: \<^verbatim>\<open>bit_unstuff(bit_stuff(B)) == B\<close>.
\<close>

theorem bit_unstuff_bit_stuff: "bit_unstuff (bit_stuff B) = B"
  by (simp add: bit_unstuff_def bit_stuff_def unstuff_stuff_loop)

lemma leading_ones_stuff_loop:
  "c < 5 \<Longrightarrow> length (takeWhile (\<lambda>b. b) (stuff_loop c bs)) \<le> 5 - c"
proof (induction bs arbitrary: c)
  case Nil
  then show ?case by simp
next
  case (Cons b bs)
  show ?case
  proof (cases "b \<and> c \<noteq> 4")
    case True
    then have "Suc c < 5" using Cons.prems by simp
    from Cons.IH [OF this] True Cons.prems show ?thesis by (simp add: Let_def)
  next
    case False
    then show ?thesis using Cons.prems by (auto simp: Let_def)
  qed
qed

lemma prefix_ones_leading:
  "prefix (replicate n True) xs \<Longrightarrow> n \<le> length (takeWhile (\<lambda>b. b) xs)"
proof (induction n arbitrary: xs)
  case 0
  then show ?case by simp
next
  case (Suc n)
  then show ?case by (cases xs) auto
qed

lemma no_six_ones_stuff_loop:
  "c < 5 \<Longrightarrow> \<not> sublist (replicate 6 True) (stuff_loop c bs)"
proof (induction bs arbitrary: c)
  case Nil
  then show ?case by simp
next
  case (Cons b bs)
  let ?c1 = "if b then c + 1 else 0"
  show ?case
  proof (cases "?c1 = 5")
    case True
    have "\<not> prefix (replicate 6 True) (b # False # stuff_loop 0 bs)"
      by (simp add: eval_nat_numeral)
    moreover have "\<not> prefix (replicate 6 True) (False # stuff_loop 0 bs)"
      by (simp add: eval_nat_numeral)
    moreover have "\<not> sublist (replicate 6 True) (stuff_loop 0 bs)"
      using Cons.IH [of 0] by simp
    ultimately show ?thesis
      using True by (simp add: Let_def sublist_Cons_right)
  next
    case False
    then have c1: "?c1 < 5" using Cons.prems by auto
    have "\<not> prefix (replicate 6 True) (b # stuff_loop ?c1 bs)"
    proof
      assume "prefix (replicate 6 True) (b # stuff_loop ?c1 bs)"
      then have "6 \<le> length (takeWhile (\<lambda>b. b) (b # stuff_loop ?c1 bs))"
        by (rule prefix_ones_leading)
      moreover have "length (takeWhile (\<lambda>b. b) (stuff_loop ?c1 bs)) \<le> 5 - ?c1"
        using c1 by (rule leading_ones_stuff_loop)
      ultimately show False by (cases b) auto
    qed
    moreover have "\<not> sublist (replicate 6 True) (stuff_loop ?c1 bs)"
      using Cons.IH [OF c1] .
    ultimately show ?thesis
      using False by (simp add: Let_def sublist_Cons_right)
  qed
qed

lemma stuff_loop_append:
  "stuff_loop c (xs @ ys) = stuff_loop c xs @ stuff_loop (count_after c xs) ys"
  by (induction xs arbitrary: c) (auto simp: Let_def)

lemma count_after_last_zero:
  "xs \<noteq> [] \<Longrightarrow> \<not> last xs \<Longrightarrow> count_after c xs = 0"
  by (induction xs arbitrary: c) (auto simp: Let_def split: if_splits)

lemma stuff_loop_five_ones:
  "stuff_loop 0 (replicate 5 True @ rest) = replicate 5 True @ False # stuff_loop 0 rest"
  by (simp add: eval_nat_numeral)

text \<open>
  Claim C4.  For every finite input, the output of \<^verbatim>\<open>bit_stuff\<close> contains no six
  consecutive 1-bits.  A run of five 1-bits that starts the input or follows a 0-bit is
  followed in the output by one inserted 0-bit, after which stuffing goes on as from a
  fresh counter (the inserted bit starts no run); with nothing after the run, this is
  the run of five at the very end of the input.
\<close>

theorem bit_stuff_no_six_ones:
  "\<not> sublist (replicate 6 True) (bit_stuff data) \<and>
   (pre = [] \<or> \<not> last pre \<longrightarrow>
      bit_stuff (pre @ replicate 5 True @ rest)
        = bit_stuff pre @ replicate 5 True @ False # bit_stuff rest)"
proof
  show "\<not> sublist (replicate 6 True) (bit_stuff data)"
    by (simp add: bit_stuff_def no_six_ones_stuff_loop)
  show "pre = [] \<or> \<not> last pre \<longrightarrow>
      bit_stuff (pre @ replicate 5 True @ rest)
        = bit_stuff pre @ replicate 5 True @ False # bit_stuff rest"
  proof
    assume "pre = [] \<or> \<not> last pre"
    then have "count_after 0 pre = 0"
      by (cases "pre = []") (simp_all add: count_after_last_zero)
    then show "bit_stuff (pre @ replicate 5 True @ rest)
        = bit_stuff pre @ replicate 5 True @ False # bit_stuff rest"
      unfolding bit_stuff_def stuff_loop_append [of 0 pre] using stuff_loop_five_ones by simp
  qed
qed

theorem bit_stuff_no_six_ones_witness:
  "\<not> sublist (replicate 6 True) (bit_stuff (replicate 7 True)) \<and>
   \<not> last [False] \<and>
   bit_stuff ([False] @ replicate 5 True @ [])
     = bit_stuff [False] @ replicate 5 True @ False # bit_stuff []"
  using bit_stuff_no_six_ones [of "replicate 7 True" "[False]" "[]"] by simp

section \<open>The frame check sequence\<close>

lemma int_of_char_char_of: "0 \<le> v \<Longrightarrow> v < 256 \<Longrightarrow> int (of_char (char_of (v::int))) = v"
proof -
  assume a: "0 \<le> v" "v < 256"
  have "char_of v = char_of (nat v)"
    using a by (metis char_of_nat int_nat_eq)
  moreover have "nat v < 256" using a by simp
  ultimately show ?thesis using a by simp
qed

text \<open>
  Claim C5.  The FCS engine starts from \<open>0xFFFF\<close> (also where \<^verbatim>\<open>fcs\<close> runs it).  One
  \<^verbatim>\<open>update_bit\<close> step takes \<open>check\<close> to be whether the low bit of the state is set,
  halves the state (a right shift by one), and XORs \<open>0x8408\<close> into it exactly when
  \<open>check\<close> differs from the input bit.  The digest is two bytes that, read least
  significant byte first, are the one's complement of the state modulo \<open>2 ^ 16\<close>.
\<close>

theorem FCS_engine:
  "FCS_init = 0xFFFF \<and>
   fcs bits = bits @ frombytes (FCS_digest (foldl FCS_update_bit 0xFFFF bits)) \<and>
   FCS_update_bit state b =
     (let check = (state AND 1 \<noteq> 0); shifted = state div 2
      in if check \<noteq> b then shifted XOR 0x8408 else shifted) \<and>
   length (FCS_digest state) = 2 \<and>
   int (of_char (FCS_digest state ! 0)) + 256 * int (of_char (FCS_digest state ! 1))
     = (NOT state) mod 2 ^ 16"
proof -
  have "state AND 1 = 1 \<longleftrightarrow> state AND 1 \<noteq> 0"
    by (simp add: and_one_eq)
  then have upd: "FCS_update_bit state b =
     (let check = (state AND 1 \<noteq> 0); shifted = state div 2
      in if check \<noteq> b then shifted XOR 0x8408 else shifted)"
    by (simp add: FCS_update_bit_def Let_def drop_bit_eq_div)
  define v where "v = (NOT state) mod 2 ^ 16"
  have v: "0 \<le> v" "v < 65536" by (simp_all add: v_def)
  have lo: "int (of_char (char_of (v mod 256))) = v mod 256"
    by (rule int_of_char_char_of) simp_all
  have hi: "int (of_char (char_of (v div 256))) = v div 256"
    using v by (intro int_of_char_char_of) simp_all
  have "int (of_char (FCS_digest state ! 0)) + 256 * int (of_char (FCS_digest state ! 1)) = v"
    unfolding FCS_digest_def Let_def v_def [symmetric] using lo hi by simp
  then show ?thesis using upd by (simp add: FCS_init_def fcs_def v_def FCS_digest_def Let_def)
qed

section \<open>Callsigns\<close>

text \<open>Rules that evaluate the callsign functions on a literal.\<close>

lemma replicate_numeral: "replicate (numeral k) x = x # replicate (pred_numeral k) x"
  by (simp add: numeral_eq_Suc)

lemmas callsign_eval = callsign_encode_def callsign_split_def upper_def upper_char_def
  bytes_find_def callsign_pad_def Let_def push_bit_eq_mult char_of_eq_iff replicate_numeral

lemma upper_char_hyphen: "upper_char c = CHR ''-'' \<longleftrightarrow> c = CHR ''-''"
proof -
  have "char_of (n - 32) \<noteq> CHR ''-''" if "97 \<le> n" "n \<le> 122" for n :: nat
  proof
    assume "char_of (n - 32) = CHR ''-''"
    then have "of_char (char_of (n - 32)) = (of_char CHR ''-'' :: nat)" by simp
    then show False using that by simp
  qed
  moreover have "(of_char c :: nat) \<noteq> 45" if "97 \<le> (of_char c :: nat)"
    using that by simp
  ultimately show ?thesis
    by (auto simp: upper_char_def Let_def)
qed

lemma hyphen_upper_char: "CHR ''-'' = upper_char c \<longleftrightarrow> c = CHR ''-''"
  using upper_char_hyphen [of c] by auto

lemma hyphen_upper: "CHR ''-'' \<in> set (upper s) \<longleftrightarrow> CHR ''-'' \<in> set s"
  by (induction s) (auto simp: upper_def upper_char_hyphen hyphen_upper_char)

lemma takeWhile_upper:
  "length (takeWhile (\<lambda>x. x \<noteq> CHR ''-'') (upper s)) = length (takeWhile (\<lambda>x. x \<noteq> CHR ''-'') s)"
  by (induction s) (auto simp: upper_def upper_char_hyphen)

lemma bytes_find_upper: "bytes_find (upper s) CHR ''-'' = bytes_find s CHR ''-''"
  using hyphen_upper [of s] takeWhile_upper [of s] by (simp add: bytes_find_def)

lemma bytes_find_append:
  "sep \<notin> set xs \<Longrightarrow> bytes_find (xs @ sep # ys) sep = int (length xs)"
  by (induction xs) (auto simp: bytes_find_def)

lemma bytes_find_leading: "bytes_find (sep # ys) sep = 0"
  by (simp add: bytes_find_def)

lemma bytes_find_absent: "sep \<notin> set xs \<Longrightarrow> bytes_find xs sep = - 1"
  by (simp add: bytes_find_def)

lemma bytes_split_absent: "sep \<notin> set xs \<Longrightarrow> bytes_split xs sep = [xs]"
  by (induction xs) auto

lemma bytes_split_append:
  "sep \<notin> set xs \<Longrightarrow> bytes_split (xs @ sep # ys) sep = xs # bytes_split ys sep"
  by (induction xs) auto

lemma upper_append: "upper (xs @ ys) = upper xs @ upper ys"
  by (simp add: upper_def)

lemma upper_Cons_hyphen: "upper (CHR ''-'' # s) = CHR ''-'' # upper s"
  by (simp add: upper_def upper_char_def)

lemma length_upper: "length (upper s) = length s"
  by (simp add: upper_def)

lemma callsign_split_hyphen:
  assumes "CHR ''-'' \<notin> set base" "base \<noteq> []" "CHR ''-'' \<notin> set ssid"
  shows "callsign_split (base @ CHR ''-'' # ssid) = Inr (upper base, upper ssid)"
proof -
  have u: "upper (base @ CHR ''-'' # ssid) = upper base @ CHR ''-'' # upper ssid"
    by (simp add: upper_append upper_Cons_hyphen)
  have nb: "CHR ''-'' \<notin> set (upper base)" and ns: "CHR ''-'' \<notin> set (upper ssid)"
    using assms by (simp_all add: hyphen_upper)
  have "bytes_find (upper base @ CHR ''-'' # upper ssid) CHR ''-'' = int (length base)"
    using nb by (simp add: bytes_find_append length_upper)
  moreover have "bytes_split (upper base @ CHR ''-'' # upper ssid) CHR ''-'' = [upper base, upper ssid]"
    using nb ns by (simp add: bytes_split_append bytes_split_absent)
  ultimately show ?thesis
    using assms(2) unfolding callsign_split_def u by (simp add: Let_def)
qed

lemma callsign_split_no_split:
  assumes "bytes_find cs CHR ''-'' \<le> 0"
  shows "callsign_split cs = Inr (upper cs, ''0'')"
  using assms by (simp add: callsign_split_def Let_def bytes_find_upper)

text \<open>
  Claim C9.  \<^verbatim>\<open>callsign_encode\<close> fails with an assertion error when, after the optional
  split at the hyphen, the SSID part is not exactly one character or the callsign part has
  more than six; the call then returns no bytes.  Stated on the result of the split
  (lines 182--186), on an input \<open>b-s\<close> with one hyphen, and on an input that is not
  split.  (An input with two or more hyphens after its first character does not reach
  the assertions: unpacking the three or more pieces raises ValueError.)
\<close>

theorem callsign_encode_assertion:
  "(callsign_split cs = Inr (base, ssid) \<and> (length ssid \<noteq> 1 \<or> 6 < length base)
      \<longrightarrow> callsign_encode cs = Inl AssertionError) \<and>
   (CHR ''-'' \<notin> set b \<and> b \<noteq> [] \<and> CHR ''-'' \<notin> set s \<and> (length s \<noteq> 1 \<or> 6 < length b)
      \<longrightarrow> callsign_encode (b @ ''-'' @ s) = Inl AssertionError) \<and>
   (bytes_find c CHR ''-'' \<le> 0 \<and> 6 < length c
      \<longrightarrow> callsign_encode c = Inl AssertionError)"
proof (intro conjI impI)
  assume "callsign_split cs = Inr (base, ssid) \<and> (length ssid \<noteq> 1 \<or> 6 < length base)"
  then show "callsign_encode cs = Inl AssertionError"
    by (auto simp: callsign_encode_def)
next
  assume a: "CHR ''-'' \<notin> set b \<and> b \<noteq> [] \<and> CHR ''-'' \<notin> set s \<and> (length s \<noteq> 1 \<or> 6 < length b)"
  then have "callsign_split (b @ ''-'' @ s) = Inr (upper b, upper s)"
    by (simp add: callsign_split_hyphen)
  then show "callsign_encode (b @ ''-'' @ s) = Inl AssertionError"
    using a unfolding callsign_encode_def by (auto simp: length_upper)
next
  assume a: "bytes_find c CHR ''-'' \<le> 0 \<and> 6 < length c"
  then have "callsign_split c = Inr (upper c, ''0'')"
    by (simp add: callsign_split_no_split)
  then show "callsign_encode c = Inl AssertionError"
    using a unfolding callsign_encode_def by (simp add: length_upper)
qed

theorem callsign_encode_assertion_witness:
  "callsign_split ''TOOLONGCALL-12'' = Inr (''TOOLONGCALL'', ''12'') \<and>
   callsign_encode ''TOOLONGCALL-12'' = Inl AssertionError \<and>
   callsign_encode (''N0CALL'' @ ''-'' @ ''10'') = Inl AssertionError \<and>
   bytes_find ''LONGCALL'' CHR ''-'' \<le> 0 \<and>
   callsign_encode ''LONGCALL'' = Inl AssertionError"
proof -
  have 1: "callsign_split ''TOOLONGCALL-12'' = Inr (''TOOLONGCALL'', ''12'')" by (simp add: callsign_eval)
  have 2: "bytes_find ''LONGCALL'' CHR ''-'' \<le> 0" by (simp add: bytes_find_def)
  show ?thesis
    using callsign_encode_assertion [of "''TOOLONGCALL-12''" "''TOOLONGCALL''" "''12''"
        "''N0CALL''" "''10''" "''LONGCALL''"] 1 2
    by simp
qed

text \<open>
  Claim C10.  \<^verbatim>\<open>callsign_encode\<close> splits only when \<^verbatim>\<open>find\<close> returns an index above zero.
  For an input whose first byte is the hyphen there is no split: the SSID is the default
  \<open>0\<close> and the whole upper-cased input, hyphen included, is the callsign, which is
  then subject to the six-character assertion.
\<close>

theorem callsign_encode_leading_hyphen:
  "(bytes_find cs CHR ''-'' \<le> 0 \<longrightarrow> callsign_split cs = Inr (upper cs, ''0'')) \<and>
   (callsign_split (CHR ''-'' # rest) = Inr (upper (CHR ''-'' # rest), ''0'')) \<and>
   (callsign_encode (CHR ''-'' # rest) =
      (if length (CHR ''-'' # rest) \<le> 6
       then shift_bytes (callsign_pad (upper (CHR ''-'' # rest)) @ ''0'')
       else Inl AssertionError))"
proof -
  have s: "callsign_split (CHR ''-'' # rest) = Inr (upper (CHR ''-'' # rest), ''0'')"
    by (rule callsign_split_no_split) (simp add: bytes_find_leading)
  show ?thesis
    using s by (simp add: callsign_encode_def length_upper callsign_split_no_split)
qed

theorem callsign_encode_leading_hyphen_witness:
  "bytes_find ''-5'' CHR ''-'' \<le> 0 \<and> callsign_split ''-5'' = Inr (''-5'', ''0'') \<and>
   callsign_encode ''-5'' = Inr [CHR 0x5A, CHR 0x6A, CHR 0x40, CHR 0x40, CHR 0x40, CHR 0x40, CHR 0x60]"
proof -
  have 1: "bytes_find ''-5'' CHR ''-'' \<le> 0" by (simp add: bytes_find_def)
  have 2: "upper ''-5'' = ''-5''" by (simp add: callsign_eval)
  have 3: "shift_bytes (callsign_pad ''-5'' @ ''0'') = Inr [CHR 0x5A, CHR 0x6A, CHR 0x40, CHR 0x40, CHR 0x40, CHR 0x40, CHR 0x60]"
    by (simp add: callsign_eval)
  show ?thesis
    using callsign_encode_leading_hyphen [of "''-5''" "''5''"] 1 2 3 by simp
qed

section \<open>Bytes and bits\<close>

lemma byte_bits_Char:
  "byte_bits (Char b0 b1 b2 b3 b4 b5 b6 b7) = [b0, b1, b2, b3, b4, b5, b6, b7]"
proof -
  have u: "[0..<8] = [0, 1, 2, 3, 4, 5, 6, 7::nat]"
    by (simp add: upt_rec)
  have "bit (of_char (Char b0 b1 b2 b3 b4 b5 b6 b7) :: nat) n
          \<longleftrightarrow> n < 8 \<and> [b0, b1, b2, b3, b4, b5, b6, b7] ! n" for n
    by (simp only: of_char_def char.sel bit_horner_sum_bit_iff) (simp add: eval_nat_numeral)
  then show ?thesis
    unfolding byte_bits_def u by simp
qed

lemma bits_value_little_horner: "bits_value_little bs = horner_sum of_bool 2 bs"
  by (induction bs) simp_all

lemma bits_value_byte_bits: "bits_value_little (byte_bits c) = of_char c"
  by (simp add: bits_value_little_horner byte_bits_def horner_sum_bit_eq_take_bit take_bit_eq_mod)

lemma length_byte_bits: "length (byte_bits c) = 8"
  by (simp add: byte_bits_def)

lemma tobytes_byte_bits_append: "tobytes (byte_bits c @ rest) = c # tobytes rest"
proof -
  obtain b bs where bb: "byte_bits c = b # bs" and l: "length bs = 7"
    using length_byte_bits [of c] by (cases "byte_bits c") auto
  have "take 8 (b # bs @ rest) = byte_bits c"
    using bb l by simp
  then have "bits_value_little (take 8 (b # bs @ rest)) = of_char c"
    by (simp only: bits_value_byte_bits)
  moreover have "drop 7 (bs @ rest) = rest" using l by simp
  ultimately show ?thesis
    unfolding bb by (simp del: bits_value_little.simps)
qed

lemma tobytes_frombytes: "tobytes (frombytes bs) = bs"
  by (induction bs) (simp_all add: frombytes_def tobytes_byte_bits_append)

lemma length_frombytes: "length (frombytes D) = 8 * length D"
  by (induction D) (simp_all add: frombytes_def byte_bits_def)

section \<open>The callsign round trip\<close>

lemma shift_bytes_ascii:
  "\<forall>c \<in> set s. (of_char c :: nat) < 128 \<Longrightarrow>
   shift_bytes s = Inr (map (\<lambda>c. char_of (push_bit 1 (of_char c :: nat))) s)"
  by (induction s) (simp_all add: push_bit_eq_mult)

lemma unshift_char:
  "(of_char c :: nat) < 128 \<Longrightarrow>
   char_of (drop_bit 1 (of_char (char_of (push_bit 1 (of_char c :: nat))) :: nat)) = c"
  by (simp add: push_bit_eq_mult drop_bit_eq_div)

lemma callsign_decode_shifted:
  assumes "\<forall>c \<in> set s. (of_char c :: nat) < 128"
  shows "callsign_decode (frombytes (map (\<lambda>c. char_of (push_bit 1 (of_char c :: nat))) s)) = s"
proof -
  have "map (\<lambda>c. char_of (drop_bit 1 (of_char c :: nat)))
          (map (\<lambda>c. char_of (push_bit 1 (of_char c :: nat))) s) = s"
    unfolding map_map o_def using assms by (intro map_idI unshift_char) blast
  then show ?thesis
    by (simp add: callsign_decode_def tobytes_frombytes)
qed

lemma upper_char_ascii: "(of_char c :: nat) < 128 \<Longrightarrow> (of_char (upper_char c) :: nat) < 128"
  by (auto simp: upper_char_def Let_def)

lemma upper_char_digit:
  "48 \<le> (of_char c :: nat) \<Longrightarrow> (of_char c :: nat) \<le> 57 \<Longrightarrow> upper_char c = c"
  by (simp add: upper_char_def Let_def)

lemma callsign_pad_ascii:
  "\<forall>c \<in> set s. (of_char c :: nat) < 128 \<Longrightarrow> \<forall>c \<in> set (callsign_pad s). (of_char c :: nat) < 128"
  by (auto simp: callsign_pad_def)

text \<open>
  Claim C6, as stated: for every callsign \<open>C\<close> of at most six characters and every SSID
  digit \<open>S\<close>, decoding the encoding of \<open>C-S\<close> gives \<open>C\<close>, space-padded to six
  characters, followed by \<open>S\<close>.  Line 182 upper-cases the input, so a callsign with a
  lower-case letter does not come back.  Three more inputs of at most six characters
  fail: for the empty callsign the hyphen is at index 0 and \<open>-5\<close> is taken as the
  callsign with SSID \<open>0\<close>; a callsign with a hyphen of its own gives three pieces
  (ValueError); a character above \<open>0x7F\<close> does not fit a byte once shifted (ValueError).
\<close>

theorem callsign_roundtrip_counterexample:
  "callsign_roundtrip ''n0call'' CHR ''1'' = Inr ''N0CALL1'' \<and>
   callsign_roundtrip ''n0call'' CHR ''1'' \<noteq> Inr (callsign_pad ''n0call'' @ ''1'') \<and>
   callsign_roundtrip [] CHR ''5'' = Inr ''-5    0'' \<and>
   callsign_roundtrip ''A-B'' CHR ''1'' = Inl ValueError \<and>
   callsign_roundtrip [CHR 0xC4] CHR ''1'' = Inl ValueError"
  by (simp add: callsign_roundtrip_def callsign_decode_def tobytes_frombytes callsign_eval
      drop_bit_eq_div)

text \<open>
  Claim C6, amended: for every callsign \<open>C\<close> of one to six 7-bit characters without a
  hyphen and every SSID digit \<open>S\<close>, decoding the encoding of \<open>C-S\<close> gives the
  upper-cased \<open>C\<close>, space-padded to six characters, followed by \<open>S\<close>: seven characters.
\<close>

theorem callsign_roundtrip_upper:
  assumes "C \<noteq> []" and "length C \<le> 6" and "CHR ''-'' \<notin> set C"
    and "\<forall>c \<in> set C. (of_char c :: nat) < 128"
    and "48 \<le> (of_char S :: nat)" and "(of_char S :: nat) \<le> 57"
  shows "callsign_roundtrip C S = Inr (callsign_pad (upper C) @ [S]) \<and>
         length (callsign_pad (upper C) @ [S]) = 7"
proof -
  have S: "upper [S] = [S]" "S \<noteq> CHR ''-''"
    using assms(5,6) by (auto simp: upper_def upper_char_digit)
  then have split: "callsign_split (C @ CHR ''-'' # [S]) = Inr (upper C, [S])"
    using callsign_split_hyphen [of C "[S]"] assms(1,3) by simp
  let ?p = "callsign_pad (upper C) @ [S]"
  have "\<forall>c \<in> set (upper C). (of_char c :: nat) < 128"
    using assms(4) by (auto simp: upper_def upper_char_ascii)
  then have ascii: "\<forall>c \<in> set ?p. (of_char c :: nat) < 128"
    using callsign_pad_ascii [of "upper C"] assms(6) by auto
  have enc: "callsign_encode (C @ CHR ''-'' # [S])
               = Inr (map (\<lambda>c. char_of (push_bit 1 (of_char c :: nat))) ?p)"
    using split assms(2) shift_bytes_ascii [OF ascii]
    by (simp add: callsign_encode_def length_upper)
  have "callsign_roundtrip C S = Inr ?p"
    using enc callsign_decode_shifted [OF ascii] by (simp add: callsign_roundtrip_def)
  moreover have "length ?p = 7"
    using assms(2) by (simp add: callsign_pad_def length_upper)
  ultimately show ?thesis by simp
qed

theorem callsign_roundtrip_upper_witness:
  "''n0call'' \<noteq> [] \<and> length ''n0call'' \<le> 6 \<and> CHR ''-'' \<notin> set ''n0call'' \<and>
   48 \<le> (of_char CHR ''1'' :: nat) \<and> (of_char CHR ''1'' :: nat) \<le> 57 \<and>
   callsign_roundtrip ''n0call'' CHR ''1'' = Inr ''N0CALL1''"
proof -
  have u: "callsign_pad (upper ''n0call'') @ ''1'' = ''N0CALL1''" by (simp add: callsign_eval)
  have h: "\<forall>c \<in> set ''n0call''. (of_char c :: nat) < 128" by simp
  show ?thesis
    using callsign_roundtrip_upper [of "''n0call''" "CHR ''1''"] u h by simp
qed

section \<open>The address field\<close>

lemma shift_bytes_Inr:
  "shift_bytes s = Inr r \<Longrightarrow> length r = length s \<and> (\<forall>c \<in> set r. \<not> bit (of_char c :: nat) 0)"
proof (induction s arbitrary: r)
  case Nil
  then show ?case by simp
next
  case (Cons c s)
  then show ?case
    by (auto simp: push_bit_eq_mult bit_0 split: if_splits sum.splits)
qed

lemma callsign_encode_Inr:
  assumes "callsign_encode cs = Inr r"
  shows "length r = 7 \<and> (\<forall>c \<in> set r. \<not> bit (of_char c :: nat) 0)"
proof -
  from assms obtain callsign ssid where
    "length ssid = 1" "length callsign \<le> 6" "shift_bytes (callsign_pad callsign @ ssid) = Inr r"
    by (auto simp: callsign_encode_def split: sum.splits if_splits)
  then show ?thesis
    using shift_bytes_Inr [of "callsign_pad callsign @ ssid" r] by (simp add: callsign_pad_def)
qed

lemma encode_digis_Inr:
  "\<forall>digi \<in> set ds. \<exists>g. callsign_encode digi = Inr g \<Longrightarrow>
   \<exists>g. encode_digis ds = Inr g \<and> length g = 7 * length ds \<and>
       (\<forall>c \<in> set g. \<not> bit (of_char c :: nat) 0)"
proof (induction ds)
  case Nil
  then show ?case by simp
next
  case (Cons digi ds)
  then obtain x where x: "callsign_encode digi = Inr x" by auto
  from Cons obtain y where y: "encode_digis ds = Inr y" "length y = 7 * length ds"
      "\<forall>c \<in> set y. \<not> bit (of_char c :: nat) 0"
    by auto
  show ?case
    using x y callsign_encode_Inr [OF x] by auto
qed

lemma set_last_byte:
  assumes "bs \<noteq> []" "\<forall>c \<in> set bs. \<not> bit (of_char c :: nat) 0"
  shows "bit (of_char (last (butlast bs @ [char_of ((of_char (last bs) :: nat) OR 1)])) :: nat) 0"
    and "\<forall>c \<in> set (butlast (butlast bs @ [char_of ((of_char (last bs) :: nat) OR 1)])).
           \<not> bit (of_char c :: nat) 0"
proof -
  have "odd ((of_char (last bs) :: nat) OR 1)" by (metis even_or_iff odd_one)
  then have "odd (((of_char (last bs) :: nat) OR 1) mod 256)"
    by (simp add: dvd_mod_iff [of 2 256] del: or_one_eq)
  then show "bit (of_char (last (butlast bs @ [char_of ((of_char (last bs) :: nat) OR 1)])) :: nat) 0"
    by (simp add: bit_0 del: or_one_eq)
  show "\<forall>c \<in> set (butlast (butlast bs @ [char_of ((of_char (last bs) :: nat) OR 1)])).
           \<not> bit (of_char c :: nat) 0"
    using assms(2) by (auto dest: in_set_butlastD)
qed

text \<open>
  Claim C7.  When \<^verbatim>\<open>callsign_encode\<close> succeeds on the destination, the source and
  every digipeater of a frame, \<^verbatim>\<open>encoded_addresses\<close> returns
  \<open>7 * (2 + number of digipeaters)\<close> bytes; the low-order bit of the last byte is 1 and
  that of every byte before it is 0.
\<close>

theorem encoded_addresses_marker:
  assumes "callsign_encode (destination self) = Inr d"
    and "callsign_encode (source self) = Inr s"
    and "\<forall>digi \<in> set (digipeaters self). \<exists>g. callsign_encode digi = Inr g"
  shows "\<exists>bs. encoded_addresses self = Inr bs \<and>
           length bs = 7 * (2 + length (digipeaters self)) \<and>
           bit (of_char (last bs) :: nat) 0 \<and>
           (\<forall>c \<in> set (butlast bs). \<not> bit (of_char c :: nat) 0)"
proof -
  from encode_digis_Inr [OF assms(3)] obtain g where
    g: "encode_digis (digipeaters self) = Inr g" "length g = 7 * length (digipeaters self)"
       "\<forall>c \<in> set g. \<not> bit (of_char c :: nat) 0"
    by auto
  note dd = callsign_encode_Inr [OF assms(1)] and ss = callsign_encode_Inr [OF assms(2)]
  let ?a = "d @ s @ g"
  have ne: "?a \<noteq> []" using dd by auto
  have ev: "\<forall>c \<in> set ?a. \<not> bit (of_char c :: nat) 0" using dd ss g(3) by auto
  have len: "length ?a = 7 * (2 + length (digipeaters self))" using dd ss g(2) by simp
  let ?r = "butlast ?a @ [char_of ((of_char (last ?a) :: nat) OR 1)]"
  have "encoded_addresses self = Inr ?r"
    using assms(1,2) g(1) ne by (simp add: encoded_addresses_def Let_def)
  moreover have "length ?r = 7 * (2 + length (digipeaters self))"
    using len ne by simp
  ultimately show ?thesis
    using set_last_byte [OF ne ev] by blast
qed

theorem encoded_addresses_marker_witness:
  "callsign_encode ''APRS'' = Inr [CHR 0x82, CHR 0xA0, CHR 0xA4, CHR 0xA6, CHR 0x40, CHR 0x40, CHR 0x60] \<and>
   callsign_encode ''N0CALL'' = Inr [CHR 0x9C, CHR 0x60, CHR 0x86, CHR 0x82, CHR 0x98, CHR 0x98, CHR 0x60] \<and>
   callsign_encode ''WIDE1-1'' = Inr [CHR 0xAE, CHR 0x92, CHR 0x88, CHR 0x8A, CHR 0x62, CHR 0x40, CHR 0x62] \<and>
   callsign_encode ''WIDE2-1'' = Inr [CHR 0xAE, CHR 0x92, CHR 0x88, CHR 0x8A, CHR 0x64, CHR 0x40, CHR 0x62] \<and>
   (\<exists>bs. encoded_addresses example_frame = Inr bs \<and> length bs = 28 \<and>
      bit (of_char (last bs) :: nat) 0 \<and> list_all (\<lambda>c. even (of_char c :: nat)) (butlast bs))"
proof -
  have d: "callsign_encode ''APRS'' = Inr [CHR 0x82, CHR 0xA0, CHR 0xA4, CHR 0xA6, CHR 0x40, CHR 0x40, CHR 0x60]"
    by (simp add: callsign_eval)
  have s: "callsign_encode ''N0CALL'' = Inr [CHR 0x9C, CHR 0x60, CHR 0x86, CHR 0x82, CHR 0x98, CHR 0x98, CHR 0x60]"
    by (simp add: callsign_eval)
  have g1: "callsign_encode ''WIDE1-1'' = Inr [CHR 0xAE, CHR 0x92, CHR 0x88, CHR 0x8A, CHR 0x62, CHR 0x40, CHR 0x62]"
    by (simp add: callsign_eval)
  have g2: "callsign_encode ''WIDE2-1'' = Inr [CHR 0xAE, CHR 0x92, CHR 0x88, CHR 0x8A, CHR 0x64, CHR 0x40, CHR 0x62]"
    by (simp add: callsign_eval)
  have g: "\<forall>digi \<in> set [''WIDE1-1'', ''WIDE2-1'']. \<exists>g. callsign_encode digi = Inr g"
    using g1 g2 by simp
  have f: "destination example_frame = ''APRS''" "source example_frame = ''N0CALL''"
      "digipeaters example_frame = [''WIDE1-1'', ''WIDE2-1'']"
    by (simp_all add: example_frame_def UI_def AX25_def)
  from encoded_addresses_marker [of example_frame, unfolded f, OF d s g] d s g1 g2
  show ?thesis by (simp add: list_all_iff bit_0)
qed

section \<open>Validation of the frame check sequence\<close>

lemma fcs_validate_loop_long:
  "length buffer \<le> 16 \<Longrightarrow> 16 < length buffer + length bits \<Longrightarrow>
   fcs_validate_loop buffer st out bits = Inl TypeError"
proof (induction bits arbitrary: buffer)
  case Nil
  then show ?case by simp
next
  case (Cons b bits)
  show ?case
  proof (cases "length buffer = 16")
    case True
    then show ?thesis by (simp add: Let_def)
  next
    case False
    then have "length (buffer @ [b]) \<le> 16" "16 < length (buffer @ [b]) + length bits"
      using Cons.prems by simp_all
    from Cons.IH [OF this] False Cons.prems(1) show ?thesis by (simp add: Let_def)
  qed
qed

lemma fcs_validate_long: "16 < length bits \<Longrightarrow> fcs_validate bits = Inl TypeError"
  by (simp add: fcs_validate_def fcs_validate_loop_long)

lemma length_fcs: "length (fcs bits) = length bits + 16"
  by (simp add: fcs_def length_frombytes FCS_digest_def Let_def)

lemma fcs_validate_fcs_nonempty:
  "D \<noteq> [] \<Longrightarrow> fcs_validate (fcs (frombytes D)) = Inl TypeError"
proof -
  assume "D \<noteq> []"
  then have "0 < length D" by simp
  then have "16 < length (fcs (frombytes D))"
    by (simp add: length_fcs length_frombytes)
  then show ?thesis by (rule fcs_validate_long)
qed

lemma fcs_validate_fcs_empty: "fcs_validate (fcs (frombytes [])) = Inr []"
  by code_simp

text \<open>
  Claim C2 says that \<^verbatim>\<open>fcs_validate\<close> after \<^verbatim>\<open>fcs\<close> yields the bits of \<open>D\<close> for every
  byte sequence \<open>D\<close>, and that one flipped bit makes it fail with its checksum error.
  Line 154 calls the byte-oriented \<^verbatim>\<open>update\<close> on a single bit, which raises TypeError at
  the seventeenth bit of any input (\<open>fcs_validate_long\<close>).  For the one-byte sequence
  \<^verbatim>\<open>b"\x00"\<close> the code raises TypeError where the claim has the eight bits, and again
  TypeError, not the checksum error, after the first bit is flipped.
\<close>

theorem fcs_validate_raises_type_error:
  "fcs_validate (fcs (frombytes [CHR 0x00])) = Inl TypeError \<and>
   fcs_validate (fcs (frombytes [CHR 0x00])) \<noteq> Inr (frombytes [CHR 0x00]) \<and>
   fcs_validate ((fcs (frombytes [CHR 0x00]))[0 := True]) = Inl TypeError"
  by (simp add: fcs_validate_fcs_nonempty fcs_validate_long length_fcs length_frombytes)

section \<open>Parsing\<close>

lemma search_all_positions:
  "search xs pat = filter (\<lambda>p. take (length pat) (drop p xs) = pat) [0..<Suc (length xs)]"
proof -
  let ?P = "\<lambda>p. take (length pat) (drop p xs) = pat"
  let ?n = "Suc (length xs) - length pat"
  have "?n \<le> Suc (length xs)" by simp
  then have "[0..<Suc (length xs)] = [0..<?n] @ [?n..<Suc (length xs)]"
    using upt_add_eq_append [of 0 ?n "Suc (length xs) - ?n"] by simp
  moreover have "filter ?P [?n..<Suc (length xs)] = []"
  proof -
    have "\<not> ?P p" if "p \<in> set [?n..<Suc (length xs)]" for p
    proof
      assume "?P p"
      then have "length (take (length pat) (drop p xs)) = length pat" by simp
      with that show False by (auto simp: min_def split: if_splits)
    qed
    then show ?thesis by (simp add: filter_empty_conv)
  qed
  ultimately show ?thesis by (simp add: search_def)
qed

lemma upt_Suc_Suc: "[0..<Suc (Suc n)] = 0 # map Suc [0..<Suc n]"
proof -
  have "[0..<Suc (Suc n)] = 0 # [Suc 0..<Suc (Suc n)]"
    by (rule upt_conv_Cons) simp
  also have "[Suc 0..<Suc (Suc n)] = map Suc [0..<Suc n]"
    by (rule map_Suc_upt [symmetric])
  finally show ?thesis .
qed

lemma search_from_eq:
  "search_from p xs pat
     = map (\<lambda>i. p + i) (filter (\<lambda>i. take (length pat) (drop i xs) = pat) [0..<Suc (length xs)])"
proof (induction xs arbitrary: p)
  case Nil
  then show ?case by auto
next
  case (Cons x xs)
  have l: "length (x # xs) = Suc (length xs)" by simp
  show ?case
    unfolding l upt_Suc_Suc by (simp add: Cons.IH filter_map o_def del: upt_Suc)
qed

lemma search_code [code]: "search xs pat = search_from 0 xs pat"
  by (simp add: search_all_positions search_from_eq)

lemma scan_marker_in_range:
  "scan_marker eq bs ms n0 = Some n \<Longrightarrow> n \<in> set ms \<or> n0 = Some n"
  by (induction ms arbitrary: n0) (auto split: if_splits)

text \<open>
  The loop variable stays below \<^verbatim>\<open>len(bits_bytes) - 1\<close>, so the test of line 266 is
  never true: when no marker is found the code goes on to line 273.
\<close>

lemma marker_test_never_true:
  assumes "scan_marker eq bs [14..<length bs - 1] None = Some n"
  shows "int n \<noteq> int (length bs) - 1"
  using scan_marker_in_range [OF assms] by auto

lemma parse_body_shape:
  assumes "parse_body marker_eq self bits = Inr r"
  shows "r = (no_decode, no_decode, no_decode, Digis_str no_decode) \<or>
         (\<exists>dst src payload. r = (dst, src, payload, Digis_tuple []))"
  using assms unfolding parse_body_def Let_def
  by (simp split: if_splits option.splits) blast+

text \<open>
  What \<^verbatim>\<open>parse\<close> does handle.  It always returns a frame.  When the input holds fewer
  than two occurrences of the flag pattern, and whenever any step of the \<^verbatim>\<open>try\<close> block
  raises, the returned frame has \<^verbatim>\<open>destination\<close>, \<^verbatim>\<open>source\<close>, \<^verbatim>\<open>info\<close> and
  \<^verbatim>\<open>digis\<close> all set to \<^verbatim>\<open>"no decode"\<close>.  The four are assigned together: the result is
  either that sentinel frame or the frame with all four taken from a body that ran to
  its end.  It holds whatever the comparison with the marker answers.
\<close>

lemma parse_no_decode:
  "(length (search bits (frombytes (flag self))) < 2
      \<longrightarrow> parse_with marker_eq self bits = set_no_decode self) \<and>
   (parse_body marker_eq self bits = Inl e
      \<longrightarrow> parse_with marker_eq self bits = set_no_decode self) \<and>
   destination (set_no_decode self) = ''no decode'' \<and>
   source (set_no_decode self) = ''no decode'' \<and>
   info (set_no_decode self) = ''no decode'' \<and>
   digis (set_no_decode self) = Some (Digis_str ''no decode'') \<and>
   (parse_with marker_eq self bits = set_no_decode self \<or>
    (\<exists>dst src payload.
       parse_body marker_eq self bits = Inr (dst, src, payload, Digis_tuple []) \<and>
       parse_with marker_eq self bits
         = self\<lparr>destination := dst, source := src, info := payload,
                 digis := Some (Digis_tuple [])\<rparr>))"
proof -
  have few: "parse_body marker_eq self bits = Inl IndexError"
    if "length (search bits (frombytes (flag self))) < 2"
    using that by (simp add: parse_body_def Let_def)
  have all_or_nothing:
    "parse_with marker_eq self bits = set_no_decode self \<or>
     (\<exists>dst src payload.
        parse_body marker_eq self bits = Inr (dst, src, payload, Digis_tuple []) \<and>
        parse_with marker_eq self bits
          = self\<lparr>destination := dst, source := src, info := payload,
                  digis := Some (Digis_tuple [])\<rparr>)"
  proof (cases "parse_body marker_eq self bits")
    case (Inl e')
    then show ?thesis by (simp add: parse_with_def)
  next
    case (Inr r)
    from parse_body_shape [OF Inr] show ?thesis
    proof
      assume "r = (no_decode, no_decode, no_decode, Digis_str no_decode)"
      then show ?thesis using Inr by (simp add: parse_with_def set_no_decode_def)
    next
      assume "\<exists>dst src payload. r = (dst, src, payload, Digis_tuple [])"
      then show ?thesis using Inr by (auto simp: parse_with_def)
    qed
  qed
  from few all_or_nothing show ?thesis
    by (auto simp: parse_with_def set_no_decode_def no_decode_def)
qed

lemma parse_no_decode_example:
  "length (search (frombytes [CHR 0x7E]) (frombytes (flag example_frame))) < 2 \<and>
   parse_body (\<lambda>b. bytes_eq_str b [CHR 0x03, CHR 0xF0]) example_frame (frombytes [CHR 0x7E])
     = Inl IndexError \<and>
   parse example_frame (frombytes [CHR 0x7E]) = set_no_decode example_frame"
proof -
  have 1: "length (search (frombytes [CHR 0x7E]) (frombytes (flag example_frame))) < 2"
    by (simp add: search_code frombytes_def byte_bits_Char example_frame_def UI_def AX25_def)
  have 2: "parse_body (\<lambda>b. bytes_eq_str b [CHR 0x03, CHR 0xF0]) example_frame (frombytes [CHR 0x7E])
             = Inl IndexError"
    using 1 by (simp add: parse_body_def Let_def)
  show ?thesis
    using parse_no_decode [of "frombytes [CHR 0x7E]" example_frame
        "\<lambda>b. bytes_eq_str b [CHR 0x03, CHR 0xF0]" IndexError] 1 2
    by (simp add: parse_def)
qed

text \<open>
  Claim C8 says that \<^verbatim>\<open>parse\<close> sets the four fields to \<^verbatim>\<open>"no decode"\<close> when fewer
  than two flags are found and, more generally, whenever any decode step fails.  Too few
  flags and every raised exception do end in the sentinel (\<open>parse_no_decode\<close>).  A
  body in which the marker \<open>03 F0\<close> is not found does not: lines 266--271 are meant to
  report it, but their test is never true (\<open>marker_test_never_true\<close>), and for a body
  of sixteen bytes \<^verbatim>\<open>digilen\<close> is zero, so the decoded fields are assigned.  For the
  input flag, sixteen zero bytes, flag, the scan stops at \<open>n = 14\<close> without a match and
  \<^verbatim>\<open>parse\<close> returns seven NUL characters as destination and as source, an empty info
  and the empty tuple as digis, with the comparison of line 264 as Python 3 evaluates it
  and with a bytewise one.
\<close>

theorem parse_marker_not_found:
  "scan_marker (\<lambda>b. b = [CHR 0x03, CHR 0xF0]) (replicate 16 (CHR 0x00)) [14..<15] None = Some 14 \<and>
   parse example_frame (frombytes [CHR 0x7E] @ replicate 128 False @ frombytes [CHR 0x7E])
     = example_frame\<lparr>destination := replicate 7 (CHR 0x00), source := replicate 7 (CHR 0x00),
                      info := [], digis := Some (Digis_tuple [])\<rparr> \<and>
   parse example_frame (frombytes [CHR 0x7E] @ replicate 128 False @ frombytes [CHR 0x7E])
     \<noteq> set_no_decode example_frame \<and>
   parse_with (\<lambda>b. b = [CHR 0x03, CHR 0xF0]) example_frame
       (frombytes [CHR 0x7E] @ replicate 128 False @ frombytes [CHR 0x7E])
     \<noteq> set_no_decode example_frame"
  by code_simp

text \<open>The example frame, stage by stage.\<close>

lemma example_fields: "flag example_frame = [CHR 0x7E]" "info example_frame = [CHR 0x21]"
  by (simp_all add: example_frame_def UI_def AX25_def)

lemma example_header: "header example_frame = Inr example_header"
  by (simp add: header_def encoded_addresses_def example_frame_def UI_def AX25_def
      example_header_def callsign_eval)

lemma example_fcs: "AX25_fcs example_frame = Inr [CHR 0x52, CHR 0xE4]"
  by (simp add: AX25_fcs_def example_header example_fields FCS_digest_def FCS_update_bit_def
      FCS_init_def example_header_def frombytes_def byte_bits_Char drop_bit_eq_div Let_def
      char_of_eq_iff)

lemma example_unparse:
  "unparse example_frame
     = Inr (frombytes [CHR 0x7E] @ bit_stuff (frombytes example_body) @ frombytes [CHR 0x7E])"
  by (simp add: unparse_def example_header example_fcs example_fields example_body_def)

lemma example_search:
  "search (frombytes [CHR 0x7E] @ bit_stuff (frombytes example_body) @ frombytes [CHR 0x7E])
     (frombytes [CHR 0x7E]) = [0, 273]"
  by (simp add: search_code bit_stuff_def example_body_def example_header_def frombytes_def
      byte_bits_Char Let_def)

lemma example_stuffed_length: "length (bit_stuff (frombytes example_body)) = 265"
  by (simp add: bit_stuff_def example_body_def example_header_def frombytes_def
      byte_bits_Char Let_def)

lemma example_between_flags:
  "slice (frombytes [CHR 0x7E] @ bit_stuff (frombytes example_body) @ frombytes [CHR 0x7E]) 8 273
     = bit_stuff (frombytes example_body)"
  by (simp add: slice_def length_frombytes example_stuffed_length)

lemma example_unstuffed:
  "tobytes (bit_unstuff (bit_stuff (frombytes example_body))) = example_body"
  by (simp add: bit_unstuff_def bit_stuff_def unstuff_stuff_loop tobytes_frombytes)

lemma example_body_length: "length example_body = 33"
  by (simp add: example_body_def example_header_def)

lemma example_scan_python3:
  "scan_marker (\<lambda>b. bytes_eq_str b [CHR 0x03, CHR 0xF0]) example_body [14..<32] None = Some 31"
  by (simp add: bytes_eq_str_def)

lemma example_scan_bytewise:
  "scan_marker (\<lambda>b. b = [CHR 0x03, CHR 0xF0]) example_body [14..<32] None = Some 28"
  by (simp add: example_body_def example_header_def slice_def)

lemma example_parse_body:
  assumes "scan_marker marker_eq example_body [14..<32] None = Some n" and "14 < n" and "n < 32"
  shows "parse_body marker_eq example_frame
           (frombytes [CHR 0x7E] @ bit_stuff (frombytes example_body) @ frombytes [CHR 0x7E])
         = Inl NameError"
  using assms
  by (simp add: parse_body_def example_fields example_search example_between_flags
      example_unstuffed example_body_length del: upt_rec_numeral)

text \<open>
  Claim C1 says that parsing the wire bits of the frame with destination \<open>APRS\<close>, source
  \<open>N0CALL\<close>, digipeaters \<open>WIDE1-1\<close>, \<open>WIDE2-1\<close> and info \<open>!\<close> recovers these fields.
  On the code, \<^verbatim>\<open>parse\<close> sets all four fields to \<^verbatim>\<open>"no decode"\<close>: with two digipeaters
  \<^verbatim>\<open>digilen\<close> is not zero, line 291 assigns \<^verbatim>\<open>digipeters\<close>, and line 296 reads the
  unbound \<^verbatim>\<open>digipeaters\<close>.  This is so with the comparison of line 264 as Python 3
  evaluates it and also with a bytewise comparison that finds the marker.
\<close>

theorem ui_frame_parse_no_decode:
  "(case unparse example_frame of
      Inl e \<Rightarrow> None
    | Inr wire \<Rightarrow>
        Some (parse example_frame wire,
              parse_with (\<lambda>b. b = [CHR 0x03, CHR 0xF0]) example_frame wire))
     = Some (set_no_decode example_frame, set_no_decode example_frame)"
  using example_parse_body [OF example_scan_python3] example_parse_body [OF example_scan_bytewise]
  by (simp add: example_unparse parse_def parse_with_def)

end
